theory Spec2Isabelle
  imports Complex_Main
begin

section \<open>The game driver of \<^verbatim>\<open>driver.py\<close>\<close>

text \<open>
  The theory embeds \<^verbatim>\<open>GameDriver.play\<close> and the agent placement of
  \<^verbatim>\<open>GameDriver.initialize_game\<close>. Python's unbounded integers are \<open>int\<close>, the
  dictionaries are maps, the numpy arrays are lists of rows, and every exception the
  interpreter can raise inside the loop body is a value of \<open>error\<close>. The driver object
  is mutated in place, so a raised exception leaves the mutations made before it: the
  stateful operations return the state together with the exception, if any.

  The module \<^verbatim>\<open>utils\<close> is not part of the sources. Its enumerations and classes are
  declared here the way the driver uses them, and its table \<^verbatim>\<open>tile_cost\<close> is a
  parameter of the model.
\<close>

subsection \<open>Data\<close>

text \<open>
  Modelled from the spec: \<^verbatim>\<open>utils.MapTiles\<close>. The driver names the members \<^verbatim>\<open>U\<close>
  (also spelled \<^verbatim>\<open>UKNOWN\<close>) and \<^verbatim>\<open>WALL\<close> and draws the generated map from the four
  members after the first one; the three passable terrains carry the spec's names.
\<close>

datatype MapTiles = U | TerrainA | TerrainB | TerrainC | WALL

text \<open>Modelled from the spec: \<^verbatim>\<open>utils.Directions\<close>, an enumeration of four members.\<close>

datatype Directions = NORTH | WEST | SOUTH | EAST

text \<open>
  Modelled from the spec: the classes \<^verbatim>\<open>utils.PowerUp\<close>, \<^verbatim>\<open>utils.StaticMonster\<close> and
  \<^verbatim>\<open>utils.Boss\<close>, a closed set of variants; the driver reads \<^verbatim>\<open>delta\<close> of the first
  and \<^verbatim>\<open>strength\<close> of the second.
\<close>

datatype GameObject = PowerUp int | StaticMonster int | Boss

text \<open>What \<^verbatim>\<open>agent.step\<close> returns: a member of \<^verbatim>\<open>Directions\<close> or any other value.\<close>

datatype decision = Dir Directions | NotADirection

datatype error = AssertionError | IndexError | KeyError | ZeroDivisionError | ValueError

datatype status = Running | AgentDied nat | AgentWon nat | Raised error | NoAgents

type_synonym location = "int \<times> int"
type_synonym grid = "MapTiles list list"
type_synonym objmap = "location \<rightharpoonup> GameObject"

text \<open>
  An agent is its method \<^verbatim>\<open>step\<close>. The first argument is the number of the turn:
  it stands for whatever the agent object remembers between its calls.
\<close>

type_synonym agent = "nat \<Rightarrow> location \<Rightarrow> int \<Rightarrow> grid \<Rightarrow> objmap \<Rightarrow> decision"

record game =
  height :: int
  width :: int
  agents :: "agent list"
  game_map :: grid
  objects :: objmap
  goal_loc :: location
  agent_maps :: "grid list"
  agent_objects :: "objmap list"
  agent_locations :: "location list"
  agent_strengths :: "int list"
  initial_strength :: int

subsection \<open>Indexing\<close>

text \<open>
  An index into a numpy axis of length \<open>n\<close>: a negative index counts from the end,
  and an index outside \<open>[-n, n)\<close> raises \<^verbatim>\<open>IndexError\<close>.
\<close>

definition norm_index :: "nat \<Rightarrow> int \<Rightarrow> nat option" where
  "norm_index n i =
     (let k = (if i < 0 then i + int n else i)
      in if 0 \<le> k \<and> k < int n then Some (nat k) else None)"

definition arr_get :: "grid \<Rightarrow> int \<Rightarrow> int \<Rightarrow> error + MapTiles" where
  "arr_get a i j =
     (case norm_index (length a) i of
        None \<Rightarrow> Inl IndexError
      | Some r \<Rightarrow>
          (case norm_index (length (a ! r)) j of
             None \<Rightarrow> Inl IndexError
           | Some c \<Rightarrow> Inr (a ! r ! c)))"

definition arr_set :: "grid \<Rightarrow> int \<Rightarrow> int \<Rightarrow> MapTiles \<Rightarrow> error + grid" where
  "arr_set a i j v =
     (case norm_index (length a) i of
        None \<Rightarrow> Inl IndexError
      | Some r \<Rightarrow>
          (case norm_index (length (a ! r)) j of
             None \<Rightarrow> Inl IndexError
           | Some c \<Rightarrow> Inr (a[r := (a ! r)[c := v]])))"

text \<open>The bounds test of lines 87 and 117.\<close>

definition in_bounds :: "game \<Rightarrow> location \<Rightarrow> bool" where
  "in_bounds g loc \<longleftrightarrow>
     0 \<le> fst loc \<and> fst loc < height g \<and> 0 \<le> snd loc \<and> snd loc < width g"

subsection \<open>Visibility refresh (lines 81 to 93)\<close>

text \<open>Lines 87 to 90: the right-hand side is read first, then the cell is written.\<close>

definition reveal_tile :: "nat \<Rightarrow> location \<Rightarrow> game \<Rightarrow> error option \<times> game" where
  "reveal_tile idx new g =
     (if in_bounds g new then
        (if idx < length (agent_maps g) then
           (case arr_get (agent_maps g ! idx) (fst new) (snd new) of
              Inl e \<Rightarrow> (Some e, g)
            | Inr t \<Rightarrow>
                if t = U then
                  (case arr_get (game_map g) (fst new) (snd new) of
                     Inl e \<Rightarrow> (Some e, g)
                   | Inr v \<Rightarrow>
                       (case arr_set (agent_maps g ! idx) (fst new) (snd new) v of
                          Inl e \<Rightarrow> (Some e, g)
                        | Inr m \<Rightarrow> (None, g\<lparr>agent_maps := (agent_maps g)[idx := m]\<rparr>)))
                else (None, g))
         else (Some IndexError, g))
      else (None, g))"

text \<open>Lines 91 to 93, outside the bounds test.\<close>

definition note_object :: "nat \<Rightarrow> location \<Rightarrow> game \<Rightarrow> error option \<times> game" where
  "note_object idx new g =
     (case objects g new of
        None \<Rightarrow> (None, g)
      | Some ob \<Rightarrow>
          if idx < length (agent_objects g) then
            (None, g\<lparr>agent_objects :=
                       (agent_objects g)[idx := (agent_objects g ! idx)(new \<mapsto> ob)]\<rparr>)
          else (Some IndexError, g))"

text \<open>\<^verbatim>\<open>product(*[[-1, 0, 1]] * 2)\<close>, in the order itertools yields it.\<close>

definition offsets :: "(int \<times> int) list" where
  "offsets = [(-1, -1), (-1, 0), (-1, 1), (0, -1), (0, 0), (0, 1), (1, -1), (1, 0), (1, 1)]"

fun update_maps :: "nat \<Rightarrow> location \<Rightarrow> (int \<times> int) list \<Rightarrow> game \<Rightarrow> error option \<times> game" where
  "update_maps idx current_loc [] g = (None, g)"
| "update_maps idx current_loc (ij # rest) g =
     (if ij = (0, 0) then update_maps idx current_loc rest g
      else
        let new = (fst current_loc + fst ij, snd current_loc + snd ij) in
        (case reveal_tile idx new g of
           (Some e, g1) \<Rightarrow> (Some e, g1)
         | (None, g1) \<Rightarrow>
             (case note_object idx new g1 of
                (Some e, g2) \<Rightarrow> (Some e, g2)
              | (None, g2) \<Rightarrow> update_maps idx current_loc rest g2)))"

subsection \<open>The decision (lines 95 to 115)\<close>

text \<open>
  The call of lines 95 to 99 reads the agent's entry of each of the four lists. The
  model is that of \<^verbatim>\<open>verbose=False\<close>, the default: the printing branches are left out.
\<close>

definition ask_agent :: "nat \<Rightarrow> nat \<Rightarrow> game \<Rightarrow> error + decision" where
  "ask_agent step idx g =
     (if idx < length (agent_locations g) \<and> idx < length (agent_strengths g)
         \<and> idx < length (agent_maps g) \<and> idx < length (agent_objects g) then
        Inr ((agents g ! idx) step (agent_locations g ! idx) (agent_strengths g ! idx)
               (agent_maps g ! idx) (agent_objects g ! idx))
      else Inl IndexError)"

fun dst_of :: "Directions \<Rightarrow> location \<Rightarrow> location" where
  "dst_of NORTH current_loc = (fst current_loc - 1, snd current_loc)"
| "dst_of WEST current_loc = (fst current_loc, snd current_loc - 1)"
| "dst_of SOUTH current_loc = (fst current_loc + 1, snd current_loc)"
| "dst_of EAST current_loc = (fst current_loc, snd current_loc + 1)"

subsection \<open>Move resolution (lines 117 to 131)\<close>

text \<open>\<^verbatim>\<open>self.agent_strengths[idx] -= c\<close>\<close>

definition charge :: "nat \<Rightarrow> int \<Rightarrow> game \<Rightarrow> game" where
  "charge idx c g =
     g\<lparr>agent_strengths := (agent_strengths g)[idx := agent_strengths g ! idx - c]\<rparr>"

text \<open>
  The result is the exception, if any, the final location and the state. The table
  \<^verbatim>\<open>utils.tile_cost\<close> is the dictionary \<open>tile_cost\<close>; a tile without an entry raises
  \<^verbatim>\<open>KeyError\<close>.
\<close>

definition resolve_move ::
  "(MapTiles \<rightharpoonup> int) \<Rightarrow> nat \<Rightarrow> location \<Rightarrow> location \<Rightarrow> game \<Rightarrow> error option \<times> location \<times> game"
where
  "resolve_move tile_cost idx current_loc dst_loc g =
     (if idx < length (agent_strengths g) then
        (if \<not> in_bounds g dst_loc then (None, current_loc, charge idx 1 g)
         else
           (case arr_get (game_map g) (fst dst_loc) (snd dst_loc) of
              Inl e \<Rightarrow> (Some e, current_loc, g)
            | Inr t \<Rightarrow>
                if t = WALL then (None, current_loc, charge idx 1 g)
                else
                  (case tile_cost t of
                     None \<Rightarrow> (Some KeyError, current_loc, g)
                   | Some c \<Rightarrow>
                       if agent_strengths g ! idx < c then (None, current_loc, charge idx 1 g)
                       else (None, dst_loc, charge idx c g))))
      else (Some IndexError, current_loc, g))"

subsection \<open>Object interaction (lines 133 to 156)\<close>

text \<open>
  The loops of lines 137 to 139 and 151 to 153. The loop variable \<open>i\<close> runs over the
  agents; the body tests and deletes in \<^verbatim>\<open>self.agent_objects[idx]\<close>.
\<close>

fun purge :: "nat list \<Rightarrow> nat \<Rightarrow> location \<Rightarrow> game \<Rightarrow> error option \<times> game" where
  "purge [] idx final_loc g = (None, g)"
| "purge (i # rest) idx final_loc g =
     (if idx < length (agent_objects g) then
        (if final_loc \<in> dom (agent_objects g ! idx) then
           purge rest idx final_loc
             (g\<lparr>agent_objects :=
                  (agent_objects g)[idx := (agent_objects g ! idx)(final_loc := None)]\<rparr>)
         else purge rest idx final_loc g)
      else (Some IndexError, g))"

text \<open>
  \<open>draw\<close> is the value of \<^verbatim>\<open>np.random.random()\<close>. The quotient of line 142 is
  Python's true division of two integers, taken here over the reals; a zero divisor
  raises \<^verbatim>\<open>ZeroDivisionError\<close>.
\<close>

definition win_chance :: "int \<Rightarrow> int \<Rightarrow> real" where
  "win_chance s strength = real_of_int s / real_of_int (s + strength)"

definition interact :: "real \<Rightarrow> nat \<Rightarrow> location \<Rightarrow> game \<Rightarrow> error option \<times> game" where
  "interact draw idx final_loc g =
     (case objects g final_loc of
        None \<Rightarrow> (None, g)
      | Some (PowerUp delta) \<Rightarrow>
          if idx < length (agent_strengths g) then
            purge [0..<length (agents g)] idx final_loc
              (g\<lparr>agent_strengths := (agent_strengths g)[idx := agent_strengths g ! idx + delta],
                 objects := (objects g)(final_loc := None)\<rparr>)
          else (Some IndexError, g)
      | Some (StaticMonster strength) \<Rightarrow>
          if idx < length (agent_strengths g) then
            (if agent_strengths g ! idx + strength = 0 then (Some ZeroDivisionError, g)
             else if draw > win_chance (agent_strengths g ! idx) strength then
               purge [0..<length (agents g)] idx final_loc
                 (g\<lparr>agent_strengths := (agent_strengths g)[idx := initial_strength g + strength],
                    objects := (objects g)(final_loc := None)\<rparr>)
             else (None, g\<lparr>agent_strengths := (agent_strengths g)[idx := 0]\<rparr>))
          else (Some IndexError, g)
      | Some Boss \<Rightarrow> (None, g))"

subsection \<open>Termination check (lines 158 to 164) and the turn\<close>

definition finish :: "nat \<Rightarrow> location \<Rightarrow> game \<Rightarrow> status \<times> game" where
  "finish idx final_loc g =
     (let g' = g\<lparr>agent_locations := (agent_locations g)[idx := final_loc]\<rparr> in
      if idx < length (agent_locations g) \<and> idx < length (agent_strengths g) then
        (if agent_strengths g' ! idx \<le> 0 then (AgentDied idx, g')
         else if final_loc = goal_loc g' then (AgentWon idx, g')
         else (Running, g'))
      else (Raised IndexError, g))"

text \<open>
  One pass through the body of the loop of \<^verbatim>\<open>play\<close>, for the turn numbered \<open>step\<close>;
  \<open>draw\<close> is the random number of this turn, read only if a monster is fought.
\<close>

definition play_step :: "(MapTiles \<rightharpoonup> int) \<Rightarrow> real \<Rightarrow> nat \<Rightarrow> game \<Rightarrow> status \<times> game" where
  "play_step tile_cost draw step g =
     (let idx = step mod length (agents g) in
      if idx < length (agent_locations g) then
        (let current_loc = agent_locations g ! idx in
         case update_maps idx current_loc offsets g of
           (Some e, g1) \<Rightarrow> (Raised e, g1)
         | (None, g1) \<Rightarrow>
             (case ask_agent step idx g1 of
                Inl e \<Rightarrow> (Raised e, g1)
              | Inr NotADirection \<Rightarrow> (Raised AssertionError, g1)
              | Inr (Dir direction) \<Rightarrow>
                  (case resolve_move tile_cost idx current_loc (dst_of direction current_loc) g1 of
                     (Some e, final_loc, g2) \<Rightarrow> (Raised e, g2)
                   | (None, final_loc, g2) \<Rightarrow>
                       (case interact draw idx final_loc g2 of
                          (Some e, g3) \<Rightarrow> (Raised e, g3)
                        | (None, g3) \<Rightarrow> finish idx final_loc g3))))
      else (Raised IndexError, g))"

text \<open>
  The loop over \<^verbatim>\<open>cycle(self.agents)\<close>, which need not end: \<open>play n\<close> runs at most
  \<open>n\<close> turns from the turn numbered \<open>step\<close> and answers \<open>Running\<close> when the loop has
  not left by then. Without agents the cycle is empty and the loop body never runs.
\<close>

fun play :: "(MapTiles \<rightharpoonup> int) \<Rightarrow> (nat \<Rightarrow> real) \<Rightarrow> nat \<Rightarrow> nat \<Rightarrow> game \<Rightarrow> status \<times> game" where
  "play tile_cost draws 0 step g = (if agents g = [] then NoAgents else Running, g)"
| "play tile_cost draws (Suc n) step g =
     (if agents g = [] then (NoAgents, g)
      else
        (case play_step tile_cost (draws step) step g of
           (Running, g') \<Rightarrow> play tile_cost draws n (Suc step) g'
         | (st, g') \<Rightarrow> (st, g')))"

subsection \<open>Game setup (lines 166 to 212)\<close>

text \<open>
  Line 176, \<^verbatim>\<open>np.where(self.game_map != utils.MapTiles.WALL)\<close>: the cells that are no wall,
  row by row.
\<close>

definition nonwall_indices :: "grid \<Rightarrow> location list" where
  "nonwall_indices gm =
     concat (map (\<lambda>r. map (\<lambda>c. (int r, int c))
                          (filter (\<lambda>c. gm ! r ! c \<noteq> WALL) [0..<length (gm ! r)]))
                 [0..<length gm])"

text \<open>
  Lines 182 to 188. \<open>deltas cnt\<close> and \<open>strengths cnt\<close> are the attributes of the object the
  constructors \<^verbatim>\<open>utils.PowerUp()\<close> and \<^verbatim>\<open>utils.StaticMonster()\<close> build on pass \<open>cnt\<close>.
\<close>

fun place_objects ::
  "location list \<Rightarrow> nat \<Rightarrow> (nat \<Rightarrow> int) \<Rightarrow> (nat \<Rightarrow> int) \<Rightarrow> nat \<Rightarrow> nat list \<Rightarrow> objmap \<Rightarrow> error + objmap"
where
  "place_objects nw num_powerups deltas strengths cnt [] objs = Inr objs"
| "place_objects nw num_powerups deltas strengths cnt (idx # rest) objs =
     (if idx < length nw then
        place_objects nw num_powerups deltas strengths (Suc cnt) rest
          (objs(nw ! idx \<mapsto>
             (if cnt < num_powerups then PowerUp (deltas cnt)
              else StaticMonster (strengths cnt))))
      else Inl IndexError)"

text \<open>
  Lines 197 to 202. \<open>rnd k\<close> is the value of the call number \<open>k\<close> of
  \<^verbatim>\<open>np.random.choice(len(nonwall_indices[0]))\<close>, an index of a non-wall cell. The loop draws
  again while the cell is the goal or the cell of an agent placed before; it need not end,
  and then the result is \<open>None\<close>. The result is the cell and the number of calls made.
\<close>

partial_function (option) reroll ::
  "(nat \<Rightarrow> nat) \<Rightarrow> location list \<Rightarrow> location \<Rightarrow> location list \<Rightarrow> location \<Rightarrow> nat
     \<Rightarrow> (location \<times> nat) option"
where
  "reroll rnd nw goal prev loc k =
     (if loc = goal \<or> list_ex (\<lambda>prev_loc. loc = prev_loc) prev
      then reroll rnd nw goal prev (nw ! rnd k) (Suc k)
      else Some (loc, k))"

text \<open>The loop of lines 196 to 203 over the agents still to place.\<close>

fun place_agents ::
  "(nat \<Rightarrow> nat) \<Rightarrow> location list \<Rightarrow> location \<Rightarrow> nat \<Rightarrow> location list \<Rightarrow> nat
     \<Rightarrow> (location list \<times> nat) option"
where
  "place_agents rnd nw goal 0 prev k = Some (prev, k)"
| "place_agents rnd nw goal (Suc m) prev k =
     (case reroll rnd nw goal prev (nw ! rnd k) (Suc k) of
        None \<Rightarrow> None
      | Some (loc, k') \<Rightarrow> place_agents rnd nw goal m (prev @ [loc]) k')"

text \<open>
  \<^verbatim>\<open>initialize_game\<close>, with the fields \<^verbatim>\<open>__init__\<close> has set. The random values are
  parameters: \<open>gen\<close> is the generated map of line 173, \<open>object_indices\<close> the sample of line
  178, drawn without replacement, which raises \<^verbatim>\<open>ValueError\<close> when it asks for more indices
  than there are non-wall cells. The numbers of power-ups and of monsters are naturals.
  The goal is the first non-wall cell (lines 190 to 193).
\<close>

definition initialize_game ::
  "int \<Rightarrow> int \<Rightarrow> nat \<Rightarrow> nat \<Rightarrow> agent list \<Rightarrow> int \<Rightarrow>
   grid \<Rightarrow> nat list \<Rightarrow> (nat \<Rightarrow> int) \<Rightarrow> (nat \<Rightarrow> int) \<Rightarrow> (nat \<Rightarrow> nat) \<Rightarrow> (error + game) option"
where
  "initialize_game h w num_powerups num_monsters ags initial
                   gen object_indices deltas strengths rnd =
     (let nw = nonwall_indices gen;
          k = num_monsters + num_powerups + 1
      in
        if h < 0 \<or> w < 0 then Some (Inl ValueError)
        else if length nw < k then Some (Inl ValueError)
        else
          (case place_objects nw num_powerups deltas strengths 0 (tl object_indices) Map.empty of
             Inl e \<Rightarrow> Some (Inl e)
           | Inr objs \<Rightarrow>
               if nw = [] then Some (Inl IndexError)
               else
                 (let goal = nw ! 0 in
                  case place_agents rnd nw goal (length ags) [] 0 of
                    None \<Rightarrow> None
                  | Some (locs, k') \<Rightarrow>
                      Some (Inr \<lparr>height = h, width = w, agents = ags, game_map = gen,
                                 objects = objs(goal \<mapsto> Boss), goal_loc = goal,
                                 agent_maps =
                                   replicate (length ags) (replicate (nat h) (replicate (nat w) U)),
                                 agent_objects = replicate (length ags) Map.empty,
                                 agent_locations = locs,
                                 agent_strengths = replicate (length ags) initial,
                                 initial_strength = initial\<rparr>))))"

subsection \<open>States the constructor builds\<close>

text \<open>
  \<^verbatim>\<open>__init__\<close> and \<^verbatim>\<open>initialize_game\<close> give the map and every private map the shape
  \<open>(height, width)\<close> and every per-agent list one entry for each agent.
\<close>

definition shaped :: "int \<Rightarrow> int \<Rightarrow> grid \<Rightarrow> bool" where
  "shaped h w a \<longleftrightarrow> int (length a) = h \<and> (\<forall>row \<in> set a. int (length row) = w)"

definition consistent :: "game \<Rightarrow> bool" where
  "consistent g \<longleftrightarrow>
     shaped (height g) (width g) (game_map g) \<and>
     length (agent_maps g) = length (agents g) \<and>
     (\<forall>m \<in> set (agent_maps g). shaped (height g) (width g) m) \<and>
     length (agent_objects g) = length (agents g) \<and>
     length (agent_locations g) = length (agents g) \<and>
     length (agent_strengths g) = length (agents g)"

text \<open>The authoritative tile of a cell in bounds, \<^verbatim>\<open>self.game_map[i, j]\<close>.\<close>

definition tile_at :: "game \<Rightarrow> location \<Rightarrow> MapTiles" where
  "tile_at g loc = game_map g ! nat (fst loc) ! nat (snd loc)"

subsection \<open>Example games\<close>

definition demo_cost :: "MapTiles \<rightharpoonup> int" where
  "demo_cost = [TerrainA \<mapsto> 1, TerrainB \<mapsto> 3, TerrainC \<mapsto> 10]"

definition westward :: agent where
  "westward = (\<lambda>step loc s m obs. Dir WEST)"

text \<open>
  One row of three cells: the boss on the first, a monster of strength \<open>m\<close> on the
  second, the only agent on the third with resource \<open>s\<close>.
\<close>

definition arena :: "agent \<Rightarrow> int \<Rightarrow> int \<Rightarrow> game" where
  "arena a s m =
     \<lparr>height = 1, width = 3, agents = [a],
      game_map = [[TerrainA, TerrainA, TerrainA]],
      objects = [(0, 0) \<mapsto> Boss, (0, 1) \<mapsto> StaticMonster m],
      goal_loc = (0, 0),
      agent_maps = [[[U, U, U]]],
      agent_objects = [Map.empty],
      agent_locations = [(0, 2)],
      agent_strengths = [s],
      initial_strength = s\<rparr>"

text \<open>Agents that answer by the number of the turn, always north, or with no direction.\<close>

definition walker :: agent where
  "walker = (\<lambda>step loc s m obs. if step = 0 then Dir SOUTH else Dir EAST)"

definition northward :: agent where
  "northward = (\<lambda>step loc s m obs. Dir NORTH)"

definition rogue :: agent where
  "rogue = (\<lambda>step loc s m obs. NotADirection)"

text \<open>
  Two rows of three cells with the boss on the first cell, a power-up of 5 on \<open>(1, 1)\<close>
  and two agents of resource \<open>s\<close>, on \<open>(1, 0)\<close> and \<open>(0, 2)\<close>, as \<^verbatim>\<open>initialize_game\<close>
  leaves them: nothing seen yet. The second agent always answers north.
\<close>

definition demo :: "agent \<Rightarrow> int \<Rightarrow> game" where
  "demo a s =
     \<lparr>height = 2, width = 3, agents = [a, northward],
      game_map = [[TerrainA, TerrainB, TerrainA], [TerrainA, TerrainA, WALL]],
      objects = [(0, 0) \<mapsto> Boss, (1, 1) \<mapsto> PowerUp 5],
      goal_loc = (0, 0),
      agent_maps = [[[U, U, U], [U, U, U]], [[U, U, U], [U, U, U]]],
      agent_objects = [Map.empty, Map.empty],
      agent_locations = [(1, 0), (0, 2)],
      agent_strengths = [s, s],
      initial_strength = s\<rparr>"

text \<open>Random indices with which \<^verbatim>\<open>initialize_game\<close> places the two agents of \<open>demo\<close>.\<close>

definition demo_rnd :: "nat \<Rightarrow> nat" where
  "demo_rnd k = (if k = 0 then 0 else if k = 1 then 3 else if k = 2 then 3 else 2)"

subsection \<open>What a turn leaves alone\<close>

text \<open>
  The visibility refresh of agent \<open>idx\<close> touches that agent's private map and private
  objects and nothing else.
\<close>

definition knowledge_frame :: "nat \<Rightarrow> game \<Rightarrow> game \<Rightarrow> bool" where
  "knowledge_frame idx g g' \<longleftrightarrow>
     height g' = height g \<and> width g' = width g \<and> agents g' = agents g \<and>
     game_map g' = game_map g \<and> objects g' = objects g \<and> goal_loc g' = goal_loc g \<and>
     agent_locations g' = agent_locations g \<and> agent_strengths g' = agent_strengths g \<and>
     initial_strength g' = initial_strength g \<and>
     length (agent_maps g') = length (agent_maps g) \<and>
     length (agent_objects g') = length (agent_objects g) \<and>
     (\<forall>a. a \<noteq> idx \<longrightarrow>
        agent_maps g' ! a = agent_maps g ! a \<and> agent_objects g' ! a = agent_objects g ! a)"

text \<open>Move resolution, object interaction and the termination check keep these fields.\<close>

definition turn_frame :: "game \<Rightarrow> game \<Rightarrow> bool" where
  "turn_frame g g' \<longleftrightarrow>
     height g' = height g \<and> width g' = width g \<and> agents g' = agents g \<and>
     game_map g' = game_map g \<and> goal_loc g' = goal_loc g \<and>
     initial_strength g' = initial_strength g \<and> agent_maps g' = agent_maps g"

subsection \<open>Fog of war\<close>

text \<open>
  How a private map \<open>m\<close> may differ from an earlier one: same shape, and a cell that
  differs was \<open>U\<close> and now holds the authoritative tile of that cell.
\<close>

definition revealed_only :: "grid \<Rightarrow> grid \<Rightarrow> grid \<Rightarrow> bool" where
  "revealed_only auth m m' \<longleftrightarrow>
     length m' = length m \<and>
     (\<forall>r < length m.
        length (m' ! r) = length (m ! r) \<and>
        (\<forall>c < length (m ! r).
           m' ! r ! c = m ! r ! c \<or>
           (m ! r ! c = U \<and> r < length auth \<and> c < length (auth ! r) \<and>
            m' ! r ! c = auth ! r ! c)))"

definition fog_monotone :: "game \<Rightarrow> game \<Rightarrow> bool" where
  "fog_monotone g g' \<longleftrightarrow>
     game_map g' = game_map g \<and>
     length (agent_maps g') = length (agent_maps g) \<and>
     (\<forall>a < length (agent_maps g).
        revealed_only (game_map g) (agent_maps g ! a) (agent_maps g' ! a))"

section \<open>Properties\<close>

subsection \<open>Indexing inside the shape\<close>

lemma norm_index_nonneg: "0 \<le> i \<Longrightarrow> i < int n \<Longrightarrow> norm_index n i = Some (nat i)"
  by (simp add: norm_index_def)

lemma shaped_row: "shaped h w a \<Longrightarrow> 0 \<le> i \<Longrightarrow> i < h \<Longrightarrow> int (length (a ! nat i)) = w"
proof -
  assume a: "shaped h w a" "0 \<le> i" "i < h"
  then have "nat i < length a" by (auto simp: shaped_def)
  then have "a ! nat i \<in> set a" by simp
  then show ?thesis using a by (auto simp: shaped_def)
qed

lemma arr_get_shaped:
  assumes "shaped h w a" "0 \<le> i" "i < h" "0 \<le> j" "j < w"
  shows "arr_get a i j = Inr (a ! nat i ! nat j)"
proof -
  have "int (length a) = h" using assms(1) by (simp add: shaped_def)
  moreover have "int (length (a ! nat i)) = w" using assms by (simp add: shaped_row)
  ultimately show ?thesis using assms
    by (simp add: arr_get_def norm_index_nonneg)
qed

lemma arr_set_shaped:
  assumes "shaped h w a" "0 \<le> i" "i < h" "0 \<le> j" "j < w"
  shows "arr_set a i j v = Inr (a[nat i := (a ! nat i)[nat j := v]])"
proof -
  have "int (length a) = h" using assms(1) by (simp add: shaped_def)
  moreover have "int (length (a ! nat i)) = w" using assms by (simp add: shaped_row)
  ultimately show ?thesis using assms
    by (simp add: arr_set_def norm_index_nonneg)
qed

lemma game_map_get:
  "consistent g \<Longrightarrow> in_bounds g loc \<Longrightarrow>
   arr_get (game_map g) (fst loc) (snd loc) = Inr (tile_at g loc)"
  unfolding tile_at_def
  by (rule arr_get_shaped[of "height g" "width g"]) (auto simp: consistent_def in_bounds_def)

lemma strengths_charge:
  "idx < length (agent_strengths g) \<Longrightarrow>
   agent_strengths (charge idx c g) ! idx = agent_strengths g ! idx - c"
  by (simp add: charge_def)

lemma consistent_arena: "consistent (arena a s m)"
  by (simp add: consistent_def arena_def shaped_def)

subsection \<open>Move resolution\<close>

text \<open>
  C1. Move resolution charges exactly one of two amounts. When the destination is out
  of bounds, is a wall, or costs more than the agent's resource, the final location is
  the current one and the resource drops by exactly 1; otherwise the final location is
  the destination and the resource drops by exactly the cost \<open>c\<close> of the destination's
  terrain. No exception is raised on a state the constructor builds, provided the cost
  table has an entry for the destination's terrain.
\<close>

theorem move_resolution_delta:
  assumes "consistent g" and "idx < length (agents g)"
    and "in_bounds g dst_loc \<and> tile_at g dst_loc \<noteq> WALL \<longrightarrow>
         tile_cost (tile_at g dst_loc) = Some c"
  shows "case resolve_move tile_cost idx current_loc dst_loc g of
           (e, final_loc, g') \<Rightarrow>
             e = None \<and>
             (if \<not> in_bounds g dst_loc \<or> tile_at g dst_loc = WALL \<or> agent_strengths g ! idx < c
              then final_loc = current_loc \<and>
                   agent_strengths g' ! idx = agent_strengths g ! idx - 1
              else final_loc = dst_loc \<and>
                   agent_strengths g' ! idx = agent_strengths g ! idx - c)"
proof -
  have len: "idx < length (agent_strengths g)"
    using assms(1,2) by (simp add: consistent_def)
  show ?thesis
  proof (cases "in_bounds g dst_loc")
    case False
    then show ?thesis using len by (simp add: resolve_move_def strengths_charge)
  next
    case True
    note inb = this
    have get: "arr_get (game_map g) (fst dst_loc) (snd dst_loc) = Inr (tile_at g dst_loc)"
      using assms(1) inb by (rule game_map_get)
    show ?thesis
    proof (cases "tile_at g dst_loc = WALL")
      case True
      then show ?thesis using len inb get by (simp add: resolve_move_def strengths_charge)
    next
      case False
      then have "tile_cost (tile_at g dst_loc) = Some c" using assms(3) inb by simp
      then show ?thesis using len inb get False
        by (simp add: resolve_move_def strengths_charge)
    qed
  qed
qed

theorem move_resolution_delta_witness:
  "consistent (arena westward 10 3) \<and> 0 < length (agents (arena westward 10 3)) \<and>
   in_bounds (arena westward 10 3) (0, 1) \<and> tile_at (arena westward 10 3) (0, 1) \<noteq> WALL \<and>
   demo_cost (tile_at (arena westward 10 3) (0, 1)) = Some 1 \<and>
   (case resolve_move demo_cost 0 (0, 2) (0, 1) (arena westward 10 3) of
      (e, final_loc, g') \<Rightarrow> e = None \<and> final_loc = (0, 1) \<and> agent_strengths g' ! 0 = 9)"
proof -
  have h1: "consistent (arena westward 10 3)" by (rule consistent_arena)
  have h2: "0 < length (agents (arena westward 10 3))" by (simp add: arena_def)
  have h3: "in_bounds (arena westward 10 3) (0, 1) \<and> tile_at (arena westward 10 3) (0, 1) \<noteq> WALL \<longrightarrow>
      demo_cost (tile_at (arena westward 10 3) (0, 1)) = Some 1"
    by (simp add: arena_def tile_at_def demo_cost_def)
  have inb: "in_bounds (arena westward 10 3) (0, 1)" by (simp add: in_bounds_def arena_def)
  have tl: "tile_at (arena westward 10 3) (0, 1) = TerrainA" by (simp add: arena_def tile_at_def)
  have st: "agent_strengths (arena westward 10 3) ! 0 = 10" by (simp add: arena_def)
  show ?thesis
    using h1 h2 h3
      move_resolution_delta [where g = "arena westward 10 3" and idx = 0 and dst_loc = "(0, 1)"
        and tile_cost = demo_cost and c = 1 and current_loc = "(0, 2)", OF h1 h2 h3]
    by (simp add: inb tl st split: prod.splits)
qed

subsection \<open>Combat\<close>

text \<open>
  The loop of lines 137 to 139 (and 151 to 153) in closed form: every pass works on the
  acting agent's dictionary, so one pass or many delete the same single entry.
\<close>

lemma purge_closed:
  "idx < length (agent_objects g) \<Longrightarrow>
   purge is idx loc g =
     (None,
      if is = [] then g
      else g\<lparr>agent_objects := (agent_objects g)[idx := (agent_objects g ! idx)(loc := None)]\<rparr>)"
proof (induction "is" arbitrary: g)
  case Nil
  then show ?case by simp
next
  case (Cons i rest)
  show ?case
  proof (cases "loc \<in> dom (agent_objects g ! idx)")
    case True
    then show ?thesis
      using Cons.prems
        Cons.IH[of "g\<lparr>agent_objects :=
                        (agent_objects g)[idx := (agent_objects g ! idx)(loc := None)]\<rparr>"]
      by simp
  next
    case False
    then have "(agent_objects g ! idx)(loc := None) = agent_objects g ! idx"
      by (auto simp: fun_eq_iff domIff)
    then show ?thesis using False Cons.prems Cons.IH[of g]
      by simp
  qed
qed

text \<open>
  C2. A fight against a monster with a fixed draw: with
  \<open>winChance = resource / (resource + strength)\<close>, a draw strictly greater than
  \<open>winChance\<close> sets the resource to the initial resource plus the monster's strength and
  removes the monster from the authoritative object map; any other draw sets the resource
  to 0 and leaves the monster. The quotient exists when the divisor is not zero.
\<close>

theorem combat_resolution:
  assumes "consistent g" and "idx < length (agents g)"
    and "objects g final_loc = Some (StaticMonster strength)"
    and "agent_strengths g ! idx + strength \<noteq> 0"
  shows "case interact draw idx final_loc g of
           (e, g') \<Rightarrow>
             e = None \<and>
             (if draw > real_of_int (agent_strengths g ! idx)
                          / real_of_int (agent_strengths g ! idx + strength)
              then agent_strengths g' ! idx = initial_strength g + strength \<and>
                   objects g' final_loc = None
              else agent_strengths g' ! idx = 0 \<and>
                   objects g' final_loc = Some (StaticMonster strength))"
proof -
  have ls: "idx < length (agent_strengths g)" and lo: "idx < length (agent_objects g)"
    using assms(1,2) by (simp_all add: consistent_def)
  show ?thesis
    using assms(3,4) ls lo
    by (simp add: interact_def win_chance_def purge_closed)
qed

theorem combat_resolution_witness:
  "consistent (arena westward 3 1) \<and> 0 < length (agents (arena westward 3 1)) \<and>
   objects (arena westward 3 1) (0, 1) = Some (StaticMonster 1) \<and>
   agent_strengths (arena westward 3 1) ! 0 + 1 \<noteq> 0 \<and>
   (case interact (1 / 2) 0 (0, 1) (arena westward 3 1) of
      (e, g') \<Rightarrow> e = None \<and> agent_strengths g' ! 0 = 0 \<and>
                 objects g' (0, 1) = Some (StaticMonster 1))"
proof -
  have h1: "consistent (arena westward 3 1)" by (rule consistent_arena)
  have h2: "0 < length (agents (arena westward 3 1))" by (simp add: arena_def)
  have h3: "objects (arena westward 3 1) (0, 1) = Some (StaticMonster 1)"
    by (simp add: arena_def)
  have h4: "agent_strengths (arena westward 3 1) ! 0 + 1 \<noteq> 0" by (simp add: arena_def)
  have st: "agent_strengths (arena westward 3 1) ! 0 = 3" by (simp add: arena_def)
  show ?thesis
    using h1 h2 h3 h4
      combat_resolution [where g = "arena westward 3 1" and idx = 0 and final_loc = "(0, 1)"
        and strength = 1 and draw = "1 / 2", OF h1 h2 h3 h4]
    by (simp add: st split: prod.splits)
qed

lemmas turn_defs =
  play_step_def offsets_def reveal_tile_def note_object_def in_bounds_def arr_get_def
  arr_set_def norm_index_def ask_agent_def resolve_move_def charge_def interact_def
  win_chance_def finish_def Let_def

text \<open>
  C4. An agent that reaches a fight with resource 0 against a monster of strength 3 has
  win chance 0, and yet it wins with the draw \<open>1/2\<close>: line 145 lets the agent win when
  the draw is above the win chance. Here the agent starts with resource 1, pays 1 for
  the step onto the monster's cell, wins, and leaves the turn with resource \<open>1 + 3\<close>;
  the monster is gone and the game goes on.
\<close>

theorem zero_resource_fight_is_won:
  "win_chance 0 3 = 0 \<and>
   fst (play_step demo_cost (1 / 2) 0 (arena westward 1 3)) = Running \<and>
   agent_strengths (snd (play_step demo_cost (1 / 2) 0 (arena westward 1 3))) = [4] \<and>
   objects (snd (play_step demo_cost (1 / 2) 0 (arena westward 1 3))) (0, 1) = None"
  by (simp add: turn_defs arena_def westward_def demo_cost_def)

text \<open>
  C5. An agent with resource 9 at the fight against a monster of strength 0 has win
  chance 1, and yet it loses with the draw \<open>1/2\<close>, as with every draw below 1: the
  resource is set to 0, the monster stays, and the agent is reported dead.
\<close>

theorem zero_strength_fight_is_lost:
  "win_chance 9 0 = 1 \<and>
   fst (play_step demo_cost (1 / 2) 0 (arena westward 10 0)) = AgentDied 0 \<and>
   agent_strengths (snd (play_step demo_cost (1 / 2) 0 (arena westward 10 0))) = [0] \<and>
   objects (snd (play_step demo_cost (1 / 2) 0 (arena westward 10 0))) (0, 1)
     = Some (StaticMonster 0)"
  by (simp add: turn_defs arena_def westward_def demo_cost_def)

text \<open>
  C6. With resource 0 and a monster of strength 0 the divisor of line 142 is zero:
  the turn raises \<^verbatim>\<open>ZeroDivisionError\<close>, whatever the draw.
\<close>

theorem zero_over_zero_raises:
  "fst (play_step demo_cost draw 0 (arena westward 1 0)) = Raised ZeroDivisionError"
  by (simp add: turn_defs arena_def westward_def demo_cost_def)

subsection \<open>Frames of the phases of a turn\<close>

lemma knowledge_frame_refl: "knowledge_frame idx g g"
  by (simp add: knowledge_frame_def)

lemma knowledge_frame_trans:
  "knowledge_frame idx g g1 \<Longrightarrow> knowledge_frame idx g1 g2 \<Longrightarrow> knowledge_frame idx g g2"
  by (simp add: knowledge_frame_def)

lemma reveal_tile_frame: "knowledge_frame idx g (snd (reveal_tile idx new g))"
  by (simp add: reveal_tile_def knowledge_frame_def split: sum.splits)

lemma note_object_frame: "knowledge_frame idx g (snd (note_object idx new g))"
  by (simp add: note_object_def knowledge_frame_def split: option.splits)

lemma update_maps_frame: "knowledge_frame idx g (snd (update_maps idx cur offs g))"
proof (induction offs arbitrary: g)
  case Nil
  show ?case by (simp add: knowledge_frame_refl)
next
  case (Cons ij rest)
  show ?case
  proof (cases "ij = (0, 0)")
    case True
    then show ?thesis using Cons.IH by simp
  next
    case False
    define new where "new = (fst cur + fst ij, snd cur + snd ij)"
    obtain e1 g1 where r1: "reveal_tile idx new g = (e1, g1)" by (cases "reveal_tile idx new g")
    obtain e2 g2 where r2: "note_object idx new g1 = (e2, g2)" by (cases "note_object idx new g1")
    have f1: "knowledge_frame idx g g1" using reveal_tile_frame[of idx g new] r1 by simp
    have f2: "knowledge_frame idx g1 g2" using note_object_frame[of idx g1 new] r2 by simp
    have f12: "knowledge_frame idx g g2" using f1 f2 by (rule knowledge_frame_trans)
    have f3: "knowledge_frame idx g (snd (update_maps idx cur rest g2))"
      using f12 Cons.IH[of g2] by (rule knowledge_frame_trans)
    show ?thesis using False r1 r2 f1 f12 f3
      by (simp add: new_def[symmetric] Let_def split: option.splits)
  qed
qed

lemma consistent_maps_update:
  assumes "consistent g" "idx < length (agents g)" "shaped (height g) (width g) m"
  shows "consistent (g\<lparr>agent_maps := (agent_maps g)[idx := m]\<rparr>)"
  using assms by (auto simp: consistent_def dest!: subsetD[OF set_update_subset_insert])

lemma shaped_update:
  assumes "shaped h w a"
  shows "shaped h w (a[r := (a ! r)[c := v]])"
proof (cases "r < length a")
  case True
  then have "a ! r \<in> set a" by simp
  then have "int (length ((a ! r)[c := v])) = w" using assms by (simp add: shaped_def)
  moreover have "set (a[r := (a ! r)[c := v]]) \<subseteq> insert ((a ! r)[c := v]) (set a)"
    by (rule set_update_subset_insert)
  ultimately show ?thesis using assms by (auto simp: shaped_def)
next
  case False
  then have "a[r := (a ! r)[c := v]] = a" by (simp add: list_update_beyond)
  then show ?thesis using assms by simp
qed

lemma reveal_tile_ok:
  assumes "consistent g" "idx < length (agents g)"
  shows "fst (reveal_tile idx new g) = None \<and> consistent (snd (reveal_tile idx new g))"
proof (cases "in_bounds g new")
  case False
  then show ?thesis using assms by (simp add: reveal_tile_def)
next
  case True
  have li: "idx < length (agent_maps g)" using assms by (simp add: consistent_def)
  then have "agent_maps g ! idx \<in> set (agent_maps g)" by simp
  then have sh: "shaped (height g) (width g) (agent_maps g ! idx)"
    using assms(1) by (simp add: consistent_def)
  have b: "0 \<le> fst new" "fst new < height g" "0 \<le> snd new" "snd new < width g"
    using True by (simp_all add: in_bounds_def)
  have g1: "arr_get (agent_maps g ! idx) (fst new) (snd new)
              = Inr (agent_maps g ! idx ! nat (fst new) ! nat (snd new))"
    using sh b by (rule arr_get_shaped)
  have g2: "arr_get (game_map g) (fst new) (snd new) = Inr (tile_at g new)"
    using assms(1) True by (rule game_map_get)
  have s1: "\<And>v. arr_set (agent_maps g ! idx) (fst new) (snd new) v
              = Inr ((agent_maps g ! idx)[nat (fst new) :=
                       (agent_maps g ! idx ! nat (fst new))[nat (snd new) := v]])"
    using sh b by (rule arr_set_shaped)
  show ?thesis
    using True li g1 g2 s1 assms consistent_maps_update[OF assms shaped_update[OF sh]]
    by (simp add: reveal_tile_def)
qed

lemma note_object_ok:
  assumes "consistent g" "idx < length (agents g)"
  shows "fst (note_object idx new g) = None \<and> consistent (snd (note_object idx new g))"
  using assms by (auto simp: note_object_def consistent_def split: option.splits)

lemma update_maps_ok:
  "consistent g \<Longrightarrow> idx < length (agents g) \<Longrightarrow>
   fst (update_maps idx cur offs g) = None \<and> consistent (snd (update_maps idx cur offs g))"
proof (induction offs arbitrary: g)
  case Nil
  then show ?case by simp
next
  case (Cons ij rest)
  show ?case
  proof (cases "ij = (0, 0)")
    case True
    then show ?thesis using Cons by simp
  next
    case False
    define new where "new = (fst cur + fst ij, snd cur + snd ij)"
    obtain e1 g1 where r1: "reveal_tile idx new g = (e1, g1)" by (cases "reveal_tile idx new g")
    obtain e2 g2 where r2: "note_object idx new g1 = (e2, g2)" by (cases "note_object idx new g1")
    have o1: "e1 = None" "consistent g1"
      using reveal_tile_ok[OF Cons.prems, of new] r1 by simp_all
    have a1: "agents g1 = agents g"
      using reveal_tile_frame[of idx g new] r1 by (simp add: knowledge_frame_def)
    have i1: "idx < length (agents g1)" using a1 Cons.prems by simp
    have o2: "e2 = None" "consistent g2"
      using note_object_ok[OF o1(2) i1, of new] r2 by simp_all
    have a2: "agents g2 = agents g1"
      using note_object_frame[of idx g1 new] r2 by (simp add: knowledge_frame_def)
    have i2: "idx < length (agents g2)" using a2 i1 by simp
    show ?thesis using False r1 r2 o1 o2 Cons.IH[OF o2(2) i2]
      by (simp add: new_def[symmetric] Let_def)
  qed
qed

lemma turn_frame_trans: "turn_frame g g1 \<Longrightarrow> turn_frame g1 g2 \<Longrightarrow> turn_frame g g2"
  by (simp add: turn_frame_def)

lemma purge_frame: "turn_frame g (snd (purge is idx loc g))"
proof (induction "is" arbitrary: g)
  case Nil
  show ?case by (simp add: turn_frame_def)
next
  case (Cons i rest)
  have "turn_frame g (snd (purge rest idx loc
          (g\<lparr>agent_objects := (agent_objects g)[idx := (agent_objects g ! idx)(loc := None)]\<rparr>)))"
    using Cons.IH[of "g\<lparr>agent_objects := (agent_objects g)[idx := (agent_objects g ! idx)(loc := None)]\<rparr>"]
    by (simp add: turn_frame_def)
  then show ?case using Cons.IH[of g] by (simp add: turn_frame_def)
qed

lemma resolve_move_frame:
  "turn_frame g (snd (snd (resolve_move tile_cost idx cur dst g)))"
  by (simp add: resolve_move_def turn_frame_def charge_def split: sum.splits option.splits)

lemma interact_frame: "turn_frame g (snd (interact draw idx loc g))"
proof -
  have p: "\<And>h. turn_frame g h \<Longrightarrow> turn_frame g (snd (purge [0..<length (agents g)] idx loc h))"
    using purge_frame turn_frame_trans by blast
  show ?thesis
    by (auto simp: interact_def split: option.splits GameObject.splits intro!: p)
       (simp_all add: turn_frame_def)
qed

lemma finish_frame: "turn_frame g (snd (finish idx loc g))"
  by (simp add: finish_def turn_frame_def Let_def)

lemma finish_status:
  assumes "finish idx loc g = (st, g')" and "\<forall>e. st \<noteq> Raised e"
  shows "agent_locations g' ! idx = loc \<and> agent_strengths g' = agent_strengths g \<and>
         st = (if agent_strengths g' ! idx \<le> 0 then AgentDied idx
               else if agent_locations g' ! idx = goal_loc g' then AgentWon idx
               else Running)"
  using assms by (auto simp: finish_def Let_def split: if_splits)

lemma play_step_cases:
  assumes "play_step tile_cost draw step g = (st, g')" and "\<forall>e. st \<noteq> Raised e"
  shows "\<exists>g3 loc.
           turn_frame (snd (update_maps (step mod length (agents g))
                              (agent_locations g ! (step mod length (agents g))) offsets g)) g3 \<and>
           finish (step mod length (agents g)) loc g3 = (st, g')"
proof -
  define idx where "idx = step mod length (agents g)"
  define cur where "cur = agent_locations g ! idx"
  obtain e1 g1 where u: "update_maps idx cur offsets g = (e1, g1)"
    by (cases "update_maps idx cur offsets g")
  obtain d where a: "ask_agent step idx g1 = Inr (Dir d)" and e1: "e1 = None"
    and il: "idx < length (agent_locations g)"
    using assms u unfolding play_step_def idx_def[symmetric] Let_def cur_def[symmetric]
    by (auto split: if_splits option.splits sum.splits decision.splits)
  obtain e2 loc g2 where r: "resolve_move tile_cost idx cur (dst_of d cur) g1 = (e2, loc, g2)"
    by (cases "resolve_move tile_cost idx cur (dst_of d cur) g1")
  obtain e3 g3 where i: "interact draw idx loc g2 = (e3, g3)"
    by (cases "interact draw idx loc g2")
  have f: "finish idx loc g3 = (st, g')"
    using assms u a e1 il r i
    unfolding play_step_def idx_def[symmetric] Let_def cur_def[symmetric]
    by (auto split: option.splits)
  have t1: "turn_frame g1 g2" using resolve_move_frame[of g1 tile_cost idx cur "dst_of d cur"] r by simp
  have t2: "turn_frame g2 g3" using interact_frame[of g2 draw idx loc] i by simp
  have t: "turn_frame (snd (update_maps idx cur offsets g)) g3"
    using t1 t2 u turn_frame_trans[of g1 g2 g3] by simp
  show ?thesis
    using t f unfolding idx_def cur_def by (intro exI[of _ g3] exI[of _ loc]) simp
qed

subsection \<open>Object knowledge, the decision and the end of a turn\<close>

lemma consistent_demo: "consistent (demo a s)"
  by (simp add: consistent_def demo_def shaped_def)

text \<open>
  C3. A run of three turns from a fresh game. Turn 0: the first agent sees the power-up
  on \<open>(1, 1)\<close> and bumps into the southern edge. Turn 1: the second agent sees the same
  power-up and bumps into the northern edge. Turn 2: the first agent steps east onto the
  power-up and takes it. The power-up leaves the authoritative map and the first agent's
  private objects; the second agent's private objects still hold it, because the loops of
  lines 137 to 139 delete in \<^verbatim>\<open>self.agent_objects[idx]\<close> on every pass.
\<close>

theorem stale_snapshot_after_pickup:
  "fst (play demo_cost (\<lambda>step. 0) 3 0 (demo walker 10)) = Running \<and>
   agent_strengths (snd (play demo_cost (\<lambda>step. 0) 3 0 (demo walker 10))) = [13, 9] \<and>
   objects (snd (play demo_cost (\<lambda>step. 0) 3 0 (demo walker 10))) (1, 1) = None \<and>
   (agent_objects (snd (play demo_cost (\<lambda>step. 0) 3 0 (demo walker 10))) ! 0) (1, 1) = None \<and>
   (agent_objects (snd (play demo_cost (\<lambda>step. 0) 3 0 (demo walker 10))) ! 1) (1, 1)
     = Some (PowerUp 5)"
  by (simp add: eval_nat_numeral turn_defs demo_def walker_def northward_def demo_cost_def)

text \<open>
  C7, as stated, fails. The first agent of a fresh game answers with a value that is no
  direction: the turn raises \<^verbatim>\<open>AssertionError\<close>, and by then the refresh of lines 81 to 93
  has revealed the cell \<open>(0, 0)\<close> in the agent's private map and recorded the power-up in
  its private objects.
\<close>

theorem invalid_decision_counterexample:
  "fst (play_step demo_cost 0 0 (demo rogue 10)) = Raised AssertionError \<and>
   agent_maps (demo rogue 10) ! 0 ! 0 ! 0 = U \<and>
   agent_maps (snd (play_step demo_cost 0 0 (demo rogue 10))) ! 0 ! 0 ! 0 = TerrainA \<and>
   (agent_objects (demo rogue 10) ! 0) (1, 1) = None \<and>
   (agent_objects (snd (play_step demo_cost 0 0 (demo rogue 10))) ! 0) (1, 1) = Some (PowerUp 5)"
  by (simp add: turn_defs demo_def rogue_def demo_cost_def)

text \<open>
  C7, amended. On a state the constructor builds, a turn whose decision is no direction
  raises \<^verbatim>\<open>AssertionError\<close> with the state the visibility refresh of the acting agent has
  produced: the map, the objects, the goal, every agent's location and resource, and the
  private map and private objects of every other agent are those of the start of the turn.
\<close>

theorem invalid_decision_aborts_after_refresh:
  fixes g :: game and step :: nat
  defines "idx \<equiv> step mod length (agents g)"
  defines "g1 \<equiv> snd (update_maps idx (agent_locations g ! idx) offsets g)"
  assumes "consistent g" and "agents g \<noteq> []"
    and "ask_agent step idx g1 = Inr NotADirection"
  shows "play_step tile_cost draw step g = (Raised AssertionError, g1) \<and>
         knowledge_frame idx g g1"
proof -
  have i: "idx < length (agents g)" using assms(4) by (simp add: idx_def)
  then have il: "idx < length (agent_locations g)" using assms(3) by (simp add: consistent_def)
  have "fst (update_maps idx (agent_locations g ! idx) offsets g) = None"
    using update_maps_ok[OF assms(3) i] by simp
  then have u: "update_maps idx (agent_locations g ! idx) offsets g = (None, g1)"
    by (simp add: g1_def prod_eq_iff)
  have "play_step tile_cost draw step g = (Raised AssertionError, g1)"
    using il u assms(5) unfolding play_step_def idx_def[symmetric] Let_def by simp
  moreover have "knowledge_frame idx g g1"
    unfolding g1_def by (rule update_maps_frame)
  ultimately show ?thesis by simp
qed

theorem invalid_decision_aborts_after_refresh_witness:
  "consistent (demo rogue 10) \<and> agents (demo rogue 10) \<noteq> [] \<and>
   ask_agent 0 0 (snd (update_maps 0 (agent_locations (demo rogue 10) ! 0) offsets (demo rogue 10)))
     = Inr NotADirection \<and>
   fst (play_step demo_cost 0 0 (demo rogue 10)) = Raised AssertionError \<and>
   knowledge_frame 0 (demo rogue 10) (snd (play_step demo_cost 0 0 (demo rogue 10)))"
proof -
  have h1: "consistent (demo rogue 10)" by (rule consistent_demo)
  have h2: "agents (demo rogue 10) \<noteq> []" by (simp add: demo_def)
  have z: "0 mod length (agents (demo rogue 10)) = 0" by simp
  have h3: "ask_agent 0 (0 mod length (agents (demo rogue 10)))
      (snd (update_maps (0 mod length (agents (demo rogue 10)))
         (agent_locations (demo rogue 10) ! (0 mod length (agents (demo rogue 10)))) offsets (demo rogue 10)))
     = Inr NotADirection"
    unfolding z by (simp add: turn_defs demo_def rogue_def)
  show ?thesis
    using h1 h2 h3
      invalid_decision_aborts_after_refresh [where g = "demo rogue 10" and step = 0
        and tile_cost = demo_cost and draw = 0, OF h1 h2 h3]
    by simp
qed

text \<open>
  C8. A turn that raises no exception ends with the check of lines 158 to 164, on the
  state the turn leaves: a resource of 0 or less reports the acting agent dead and ends
  the loop, also when the agent stands on the goal; otherwise standing on the goal reports
  the agent as the winner and ends the loop; otherwise the loop goes on with the next turn,
  whose agent is the next one in the cycle.
\<close>

theorem termination_check_priority:
  fixes g :: game and step :: nat
  defines "idx \<equiv> step mod length (agents g)"
  assumes "agents g \<noteq> []"
    and "play_step tile_cost (draws step) step g = (st, g')"
    and "\<forall>e. st \<noteq> Raised e"
  shows "agents g' = agents g \<and>
         Suc step mod length (agents g') = Suc idx mod length (agents g) \<and>
         (if agent_strengths g' ! idx \<le> 0 then
            st = AgentDied idx \<and>
            play tile_cost draws (Suc n) step g = (AgentDied idx, g')
          else if agent_locations g' ! idx = goal_loc g' then
            st = AgentWon idx \<and>
            play tile_cost draws (Suc n) step g = (AgentWon idx, g')
          else
            st = Running \<and>
            play tile_cost draws (Suc n) step g = play tile_cost draws n (Suc step) g')"
proof -
  obtain g3 loc where
    t: "turn_frame (snd (update_maps idx (agent_locations g ! idx) offsets g)) g3"
    and f: "finish idx loc g3 = (st, g')"
    using play_step_cases[OF assms(3,4)] unfolding idx_def by blast
  have "knowledge_frame idx g (snd (update_maps idx (agent_locations g ! idx) offsets g))"
    by (rule update_maps_frame)
  then have a3: "agents g3 = agents g" using t by (simp add: knowledge_frame_def turn_frame_def)
  have "turn_frame g3 g'" using finish_frame[of g3 idx loc] f by simp
  then have ag: "agents g' = agents g" using a3 by (simp add: turn_frame_def)
  have m: "Suc step mod length (agents g') = Suc idx mod length (agents g)"
    unfolding ag idx_def by (simp add: mod_Suc_eq)
  have s: "st = (if agent_strengths g' ! idx \<le> 0 then AgentDied idx
               else if agent_locations g' ! idx = goal_loc g' then AgentWon idx
               else Running)"
    using finish_status[OF f assms(4)] by simp
  show ?thesis
    using ag m s assms(2,3) by (simp split: if_splits)
qed

theorem termination_check_priority_witness:
  "agents (demo northward 1) \<noteq> [] \<and>
   (agent_locations (snd (play_step demo_cost 0 0 (demo northward 1))) ! 0
      = goal_loc (snd (play_step demo_cost 0 0 (demo northward 1)))) \<and>
   agent_strengths (snd (play_step demo_cost 0 0 (demo northward 1))) ! 0 = 0 \<and>
   fst (play_step demo_cost 0 0 (demo northward 1)) = AgentDied 0 \<and>
   fst (play demo_cost (\<lambda>step. 0) (Suc 5) 0 (demo northward 1)) = AgentDied 0"
proof -
  have h1: "agents (demo northward 1) \<noteq> []" by (simp add: demo_def)
  have v: "fst (play_step demo_cost 0 0 (demo northward 1)) = AgentDied 0"
    by (simp add: turn_defs demo_def northward_def demo_cost_def)
  have h2: "play_step demo_cost ((\<lambda>step. 0) (0::nat)) 0 (demo northward 1)
      = (fst (play_step demo_cost 0 0 (demo northward 1)),
         snd (play_step demo_cost 0 0 (demo northward 1)))" by simp
  have h3: "\<forall>e. fst (play_step demo_cost 0 0 (demo northward 1)) \<noteq> Raised e"
    using v by simp
  have l: "agent_locations (snd (play_step demo_cost 0 0 (demo northward 1))) ! 0
      = goal_loc (snd (play_step demo_cost 0 0 (demo northward 1)))"
    by (simp add: turn_defs demo_def northward_def demo_cost_def)
  have s: "agent_strengths (snd (play_step demo_cost 0 0 (demo northward 1))) ! 0 = 0"
    by (simp add: turn_defs demo_def northward_def demo_cost_def)
  show ?thesis
    using h1 v l s
      termination_check_priority [where g = "demo northward 1" and step = 0
        and tile_cost = demo_cost and draws = "\<lambda>step. 0" and n = 5, OF h1 h2 h3]
    by (simp add: demo_def)
qed

subsection \<open>Fog of war\<close>

lemma revealed_only_refl: "revealed_only auth m m"
  by (simp add: revealed_only_def)

lemma revealed_only_trans:
  assumes "revealed_only auth m m1" and "revealed_only auth m1 m2"
  shows "revealed_only auth m m2"
  unfolding revealed_only_def
proof (intro conjI allI impI)
  show "length m2 = length m" using assms by (simp add: revealed_only_def)
next
  fix r assume r: "r < length m"
  then have r1: "r < length m1" using assms(1) by (simp add: revealed_only_def)
  show "length (m2 ! r) = length (m ! r)"
    using assms r r1 by (simp add: revealed_only_def)
next
  fix r c assume r: "r < length m" and c: "c < length (m ! r)"
  have r1: "r < length m1" using assms(1) r by (simp add: revealed_only_def)
  have c1: "c < length (m1 ! r)" using assms(1) r c by (simp add: revealed_only_def)
  have s1: "m1 ! r ! c = m ! r ! c \<or>
            (m ! r ! c = U \<and> r < length auth \<and> c < length (auth ! r) \<and> m1 ! r ! c = auth ! r ! c)"
    using assms(1) r c by (simp add: revealed_only_def)
  have s2: "m2 ! r ! c = m1 ! r ! c \<or>
            (m1 ! r ! c = U \<and> r < length auth \<and> c < length (auth ! r) \<and> m2 ! r ! c = auth ! r ! c)"
    using assms(2) r1 c1 by (simp add: revealed_only_def)
  show "m2 ! r ! c = m ! r ! c \<or>
        (m ! r ! c = U \<and> r < length auth \<and> c < length (auth ! r) \<and> m2 ! r ! c = auth ! r ! c)"
    using s1 s2 by metis
qed

lemma length_cell_update:
  "ra < length m \<Longrightarrow> length (m[r := (m ! r)[c := v]] ! ra) = length (m ! ra)"
  by (cases "ra = r") simp_all

lemma nth_cell_update:
  assumes "ra < length m" and "ca < length (m ! ra)"
  shows "m[r := (m ! r)[c := v]] ! ra ! ca = (if ra = r \<and> ca = c then v else m ! ra ! ca)"
proof (cases "ra = r")
  case True
  then show ?thesis using assms by (simp add: nth_list_update)
next
  case False
  then show ?thesis using assms by simp
qed

lemma revealed_only_update:
  assumes "m ! r ! c = U" and "r < length auth" and "c < length (auth ! r)"
  shows "revealed_only auth m (m[r := (m ! r)[c := auth ! r ! c]])"
  using assms by (simp add: revealed_only_def length_cell_update nth_cell_update)

lemma fog_monotone_refl: "fog_monotone g g"
  by (simp add: fog_monotone_def revealed_only_refl)

lemma fog_monotone_trans:
  assumes "fog_monotone g g1" and "fog_monotone g1 g2"
  shows "fog_monotone g g2"
  using assms revealed_only_trans unfolding fog_monotone_def by metis

lemma turn_frame_fog: "turn_frame g g' \<Longrightarrow> fog_monotone g g'"
  by (simp add: turn_frame_def fog_monotone_def revealed_only_refl)

lemma arr_get_nonneg:
  assumes "0 \<le> i" and "0 \<le> j" and "arr_get a i j = Inr t"
  shows "nat i < length a \<and> nat j < length (a ! nat i) \<and> t = a ! nat i ! nat j"
  using assms by (auto simp: arr_get_def norm_index_def split: option.splits if_splits)

lemma arr_set_nonneg:
  assumes "0 \<le> i" and "0 \<le> j" and "arr_set a i j v = Inr a'"
  shows "a' = a[nat i := (a ! nat i)[nat j := v]]"
  using assms by (auto simp: arr_set_def norm_index_def split: option.splits if_splits)

lemma reveal_tile_fog: "fog_monotone g (snd (reveal_tile idx new g))"
proof (cases "in_bounds g new \<and> idx < length (agent_maps g)")
  case False
  then show ?thesis by (auto simp: reveal_tile_def fog_monotone_refl)
next
  case True
  then have b: "0 \<le> fst new" "0 \<le> snd new" and li: "idx < length (agent_maps g)"
    by (simp_all add: in_bounds_def)
  show ?thesis
  proof (cases "arr_get (agent_maps g ! idx) (fst new) (snd new)")
    case (Inl e)
    then show ?thesis using True by (simp add: reveal_tile_def fog_monotone_refl)
  next
    case (Inr t)
    note priv = this
    show ?thesis
    proof (cases "t = U")
      case False
      then show ?thesis using True priv by (simp add: reveal_tile_def fog_monotone_refl)
    next
      case True
      note unknown = this
      show ?thesis
      proof (cases "arr_get (game_map g) (fst new) (snd new)")
        case (Inl e)
        then show ?thesis using \<open>in_bounds g new \<and> idx < length (agent_maps g)\<close> priv unknown
          by (simp add: reveal_tile_def fog_monotone_refl)
      next
        case (Inr v)
        note auth = this
        show ?thesis
        proof (cases "arr_set (agent_maps g ! idx) (fst new) (snd new) v")
          case (Inl e)
          then show ?thesis using \<open>in_bounds g new \<and> idx < length (agent_maps g)\<close> priv unknown auth
            by (simp add: reveal_tile_def fog_monotone_refl)
        next
          case (Inr m')
          have p: "agent_maps g ! idx ! nat (fst new) ! nat (snd new) = U"
            using arr_get_nonneg[OF b priv] unknown by simp
          have a: "nat (fst new) < length (game_map g)"
                  "nat (snd new) < length (game_map g ! nat (fst new))"
                  "v = game_map g ! nat (fst new) ! nat (snd new)"
            using arr_get_nonneg[OF b auth] by simp_all
          have m': "m' = (agent_maps g ! idx)[nat (fst new) :=
                          (agent_maps g ! idx ! nat (fst new))[nat (snd new) := v]]"
            using arr_set_nonneg[OF b Inr] .
          have ro: "revealed_only (game_map g) (agent_maps g ! idx) m'"
            unfolding m' a(3) using p a(1,2) by (rule revealed_only_update)
          have res: "snd (reveal_tile idx new g) = g\<lparr>agent_maps := (agent_maps g)[idx := m']\<rparr>"
            using \<open>in_bounds g new \<and> idx < length (agent_maps g)\<close> priv unknown auth Inr
            by (simp add: reveal_tile_def)
          show ?thesis
            unfolding res fog_monotone_def using ro li
            by (auto simp: nth_list_update revealed_only_refl)
        qed
      qed
    qed
  qed
qed

lemma note_object_fog: "fog_monotone g (snd (note_object idx new g))"
  by (simp add: note_object_def fog_monotone_def revealed_only_refl split: option.splits)

lemma update_maps_fog: "fog_monotone g (snd (update_maps idx cur offs g))"
proof (induction offs arbitrary: g)
  case Nil
  show ?case by (simp add: fog_monotone_refl)
next
  case (Cons ij rest)
  show ?case
  proof (cases "ij = (0, 0)")
    case True
    then show ?thesis using Cons.IH by simp
  next
    case False
    define new where "new = (fst cur + fst ij, snd cur + snd ij)"
    obtain e1 g1 where r1: "reveal_tile idx new g = (e1, g1)" by (cases "reveal_tile idx new g")
    obtain e2 g2 where r2: "note_object idx new g1 = (e2, g2)" by (cases "note_object idx new g1")
    have f1: "fog_monotone g g1" using reveal_tile_fog[of g idx new] r1 by simp
    have f2: "fog_monotone g1 g2" using note_object_fog[of g1 idx new] r2 by simp
    have f12: "fog_monotone g g2" using f1 f2 by (rule fog_monotone_trans)
    have f3: "fog_monotone g (snd (update_maps idx cur rest g2))"
      using f12 Cons.IH[of g2] by (rule fog_monotone_trans)
    show ?thesis using False r1 r2 f1 f12 f3
      by (simp add: new_def[symmetric] Let_def split: option.splits)
  qed
qed

lemma play_step_fog: "fog_monotone g (snd (play_step tile_cost draw step g))"
proof -
  define idx where "idx = step mod length (agents g)"
  define cur where "cur = agent_locations g ! idx"
  obtain e1 g1 where u: "update_maps idx cur offsets g = (e1, g1)"
    by (cases "update_maps idx cur offsets g")
  have f1: "fog_monotone g g1" using update_maps_fog[of g idx cur offsets] u by simp
  have rest: "fog_monotone g
      (snd (case resolve_move tile_cost idx cur dst g1 of
              (Some e, final_loc, g2) \<Rightarrow> (Raised e, g2)
            | (None, final_loc, g2) \<Rightarrow>
                (case interact draw idx final_loc g2 of
                   (Some e, g3) \<Rightarrow> (Raised e, g3)
                 | (None, g3) \<Rightarrow> finish idx final_loc g3)))" for dst
  proof -
    obtain e2 loc g2 where r: "resolve_move tile_cost idx cur dst g1 = (e2, loc, g2)"
      by (cases "resolve_move tile_cost idx cur dst g1")
    obtain e3 g3 where i: "interact draw idx loc g2 = (e3, g3)"
      by (cases "interact draw idx loc g2")
    have f2: "fog_monotone g g2"
      using f1 turn_frame_fog[OF resolve_move_frame[of g1 tile_cost idx cur dst]] r
      by (auto intro: fog_monotone_trans)
    have f3: "fog_monotone g g3"
      using f2 turn_frame_fog[OF interact_frame[of g2 draw idx loc]] i
      by (auto intro: fog_monotone_trans)
    have f4: "fog_monotone g (snd (finish idx loc g3))"
      using f3 turn_frame_fog[OF finish_frame[of g3 idx loc]]
      by (auto intro: fog_monotone_trans)
    show ?thesis using r i f2 f3 f4 by (simp split: option.splits)
  qed
  show ?thesis
    unfolding play_step_def idx_def[symmetric] Let_def cur_def[symmetric]
    using u f1 rest
    by (simp add: fog_monotone_refl split: option.splits sum.splits decision.splits)
qed

lemma play_fog: "fog_monotone g (snd (play tile_cost draws n step g))"
proof (induction n arbitrary: step g)
  case 0
  show ?case by (simp add: fog_monotone_refl)
next
  case (Suc n)
  obtain st g' where p: "play_step tile_cost (draws step) step g = (st, g')"
    by (cases "play_step tile_cost (draws step) step g")
  have f: "fog_monotone g g'" using play_step_fog[of g tile_cost "draws step" step] p by simp
  have "fog_monotone g (snd (play tile_cost draws n (Suc step) g'))"
    using f Suc.IH[of g' "Suc step"] by (rule fog_monotone_trans)
  then show ?case using p f by (simp add: fog_monotone_refl split: status.splits)
qed

text \<open>
  C9. Over any number of turns from any state, the authoritative map stays as it is, and
  for every agent and every cell of its private map: a cell that is not \<open>U\<close> keeps its
  value, and a cell whose value has changed was \<open>U\<close> and now holds the authoritative tile
  of that cell. This covers the turns that end in an exception, too.
\<close>

theorem fog_of_war_monotone:
  assumes "a < length (agent_maps g)" and "r < length (agent_maps g ! a)"
    and "c < length (agent_maps g ! a ! r)"
  shows "game_map (snd (play tile_cost draws n step g)) = game_map g \<and>
         (agent_maps g ! a ! r ! c \<noteq> U \<longrightarrow>
            agent_maps (snd (play tile_cost draws n step g)) ! a ! r ! c = agent_maps g ! a ! r ! c) \<and>
         (agent_maps (snd (play tile_cost draws n step g)) ! a ! r ! c \<noteq> agent_maps g ! a ! r ! c \<longrightarrow>
            agent_maps g ! a ! r ! c = U \<and>
            arr_get (game_map g) (int r) (int c)
              = Inr (agent_maps (snd (play tile_cost draws n step g)) ! a ! r ! c))"
proof -
  define g' where "g' = snd (play tile_cost draws n step g)"
  have f: "fog_monotone g g'" unfolding g'_def by (rule play_fog)
  then have ro: "revealed_only (game_map g) (agent_maps g ! a) (agent_maps g' ! a)"
    using assms(1) by (simp add: fog_monotone_def)
  have cell: "agent_maps g' ! a ! r ! c = agent_maps g ! a ! r ! c \<or>
        (agent_maps g ! a ! r ! c = U \<and> r < length (game_map g) \<and> c < length (game_map g ! r) \<and>
         agent_maps g' ! a ! r ! c = game_map g ! r ! c)"
    using ro assms(2,3) by (simp add: revealed_only_def)
  have get: "r < length (game_map g) \<Longrightarrow> c < length (game_map g ! r) \<Longrightarrow>
        arr_get (game_map g) (int r) (int c) = Inr (game_map g ! r ! c)"
    by (simp add: arr_get_def norm_index_def)
  show ?thesis
    unfolding g'_def[symmetric] using f cell get by (auto simp: fog_monotone_def)
qed

theorem fog_of_war_monotone_witness:
  "0 < length (agent_maps (demo walker 10)) \<and>
   0 < length (agent_maps (demo walker 10) ! 0) \<and>
   0 < length (agent_maps (demo walker 10) ! 0 ! 0) \<and>
   agent_maps (demo walker 10) ! 0 ! 0 ! 0 = U \<and>
   agent_maps (snd (play demo_cost (\<lambda>step. 0) 3 0 (demo walker 10))) ! 0 ! 0 ! 0 = TerrainA \<and>
   arr_get (game_map (demo walker 10)) (int 0) (int 0) = Inr TerrainA \<and>
   game_map (snd (play demo_cost (\<lambda>step. 0) 3 0 (demo walker 10))) = game_map (demo walker 10)"
proof -
  have h1: "0 < length (agent_maps (demo walker 10))" by (simp add: demo_def)
  have h2: "0 < length (agent_maps (demo walker 10) ! 0)" by (simp add: demo_def)
  have h3: "0 < length (agent_maps (demo walker 10) ! 0 ! 0)" by (simp add: demo_def)
  have old: "agent_maps (demo walker 10) ! 0 ! 0 ! 0 = U" by (simp add: demo_def)
  have new: "agent_maps (snd (play demo_cost (\<lambda>step. 0) 3 0 (demo walker 10))) ! 0 ! 0 ! 0
               = TerrainA"
    by (simp add: eval_nat_numeral turn_defs demo_def walker_def northward_def demo_cost_def)
  show ?thesis
    using h1 h2 h3 old new
      fog_of_war_monotone [where g = "demo walker 10" and a = 0 and r = 0 and c = 0
        and tile_cost = demo_cost and draws = "\<lambda>step. 0" and n = 3 and step = 0, OF h1 h2 h3]
    by simp
qed

subsection \<open>Game setup\<close>

lemma nw_demo: "nonwall_indices [[TerrainA, TerrainB, TerrainA], [TerrainA, TerrainA, WALL]]
   = [(0,0),(0,1),(0,2),(1,0),(1,1)]"
  by (simp add: nonwall_indices_def)

text \<open>The example game \<open>demo\<close> is a state \<^verbatim>\<open>initialize_game\<close> returns.\<close>

lemma init_demo:
  "initialize_game 2 3 1 0 [a, northward] s
     [[TerrainA, TerrainB, TerrainA], [TerrainA, TerrainA, WALL]] [2, 4] (\<lambda>cnt. 5) (\<lambda>cnt. 0) demo_rnd
   = Some (Inr (demo a s))"
  by (simp add: initialize_game_def nw_demo reroll.simps demo_rnd_def demo_def eval_nat_numeral Let_def fun_upd_twist)


lemma nonwall_indices_mem:
  "loc \<in> set (nonwall_indices gm) \<longleftrightarrow>
     (\<exists>r c. loc = (int r, int c) \<and> r < length gm \<and> c < length (gm ! r) \<and> gm ! r ! c \<noteq> WALL)"
  by (auto simp: nonwall_indices_def)

lemma nonwall_indices_get:
  assumes "loc \<in> set (nonwall_indices gm)"
  shows "\<exists>t. arr_get gm (fst loc) (snd loc) = Inr t \<and> t \<noteq> WALL"
proof -
  obtain r c where "loc = (int r, int c)" "r < length gm" "c < length (gm ! r)" "gm ! r ! c \<noteq> WALL"
    using assms by (auto simp: nonwall_indices_mem)
  then show ?thesis by (simp add: arr_get_def norm_index_def)
qed

lemma reroll_result:
  assumes "reroll rnd nw goal prev loc k = Some res"
  shows "fst res \<noteq> goal \<and> fst res \<notin> set prev \<and> (fst res = loc \<or> (\<exists>j. fst res = nw ! rnd j))"
proof (rule reroll.raw_induct
    [where P = "\<lambda>rnd nw goal prev loc k res.
                  fst res \<noteq> goal \<and> fst res \<notin> set prev \<and>
                  (fst res = loc \<or> (\<exists>j. fst res = nw ! rnd j))", OF _ assms])
  fix again :: "(nat \<Rightarrow> nat) \<Rightarrow> location list \<Rightarrow> location \<Rightarrow> location list \<Rightarrow> location \<Rightarrow> nat
                  \<Rightarrow> (location \<times> nat) option"
  fix rnd nw goal prev loc k res
  assume IH: "\<And>rnd nw goal prev loc k res. again rnd nw goal prev loc k = Some res \<Longrightarrow>
                fst res \<noteq> goal \<and> fst res \<notin> set prev \<and>
                (fst res = loc \<or> (\<exists>j. fst res = nw ! rnd j))"
    and unfolded: "(if loc = goal \<or> list_ex (\<lambda>prev_loc. loc = prev_loc) prev
                    then again rnd nw goal prev (nw ! rnd k) (Suc k)
                    else Some (loc, k)) = Some res"
  show "fst res \<noteq> goal \<and> fst res \<notin> set prev \<and> (fst res = loc \<or> (\<exists>j. fst res = nw ! rnd j))"
  proof (cases "loc = goal \<or> list_ex (\<lambda>prev_loc. loc = prev_loc) prev")
    case True
    then have "again rnd nw goal prev (nw ! rnd k) (Suc k) = Some res" using unfolded by simp
    from IH[OF this] show ?thesis by auto
  next
    case False
    then have "res = (loc, k)" using unfolded by simp
    then show ?thesis using False by (auto simp: list_ex_iff)
  qed
qed

text \<open>The loop ends as soon as the generator offers a free cell.\<close>

lemma reroll_returns:
  assumes "nw ! rnd j \<noteq> goal" and "nw ! rnd j \<notin> set prev"
  shows "k \<le> j \<Longrightarrow> \<exists>res. reroll rnd nw goal prev loc k = Some res"
proof (induction "j - k" arbitrary: k loc)
  case 0
  then have kj: "k = j" by simp
  have free: "\<not> (nw ! rnd j = goal \<or> list_ex (\<lambda>prev_loc. nw ! rnd j = prev_loc) prev)"
    using assms by (simp add: list_ex_iff)
  have next_call: "reroll rnd nw goal prev (nw ! rnd j) (Suc j) = Some (nw ! rnd j, Suc j)"
    using free by (subst reroll.simps) simp
  show ?case
    using next_call unfolding kj by (subst reroll.simps) simp
next
  case (Suc d)
  then have "d = j - Suc k" and "Suc k \<le> j" by simp_all
  then have "\<exists>res. reroll rnd nw goal prev (nw ! rnd k) (Suc k) = Some res"
    using Suc.hyps(1) by blast
  then show ?case by (subst reroll.simps) simp
qed

lemma place_agents_result:
  assumes "\<forall>k. rnd k < length nw"
  shows "place_agents rnd nw goal m prev k = Some (locs, k') \<Longrightarrow>
         distinct prev \<Longrightarrow> goal \<notin> set prev \<Longrightarrow> set prev \<subseteq> set nw \<Longrightarrow>
         distinct locs \<and> goal \<notin> set locs \<and> set locs \<subseteq> set nw \<and>
         length locs = length prev + m"
proof (induction m arbitrary: prev k)
  case 0
  then show ?case by simp
next
  case (Suc m)
  obtain loc k1 where r: "reroll rnd nw goal prev (nw ! rnd k) (Suc k) = Some (loc, k1)"
    and p: "place_agents rnd nw goal m (prev @ [loc]) k1 = Some (locs, k')"
    using Suc.prems(1) by (auto split: option.splits)
  have fresh: "loc \<noteq> goal" "loc \<notin> set prev" and src: "loc = nw ! rnd k \<or> (\<exists>j. loc = nw ! rnd j)"
    using reroll_result[OF r] by simp_all
  have "loc \<in> set nw" using src assms by (auto intro: nth_mem)
  then have inv: "distinct (prev @ [loc])" "goal \<notin> set (prev @ [loc])" "set (prev @ [loc]) \<subseteq> set nw"
    using fresh Suc.prems(2,3,4) by auto
  show ?case using Suc.IH[OF p inv] by simp
qed

text \<open>
  C10. Whenever \<^verbatim>\<open>initialize_game\<close> returns a game, with random indices inside the range
  \<^verbatim>\<open>np.random.choice\<close> draws them from: there is one location for each agent, the
  locations are pairwise distinct, none is the goal, which holds the boss, and each is a
  non-wall cell of the generated map.
\<close>

theorem agents_start_on_free_cells:
  assumes "initialize_game h w num_powerups num_monsters ags initial
             gen object_indices deltas strengths rnd = Some (Inr g)"
    and "\<forall>k. rnd k < length (nonwall_indices gen)"
  shows "game_map g = gen \<and>
         length (agent_locations g) = length (agents g) \<and>
         distinct (agent_locations g) \<and>
         goal_loc g \<notin> set (agent_locations g) \<and>
         objects g (goal_loc g) = Some Boss \<and>
         (\<forall>loc \<in> set (agent_locations g).
            loc \<in> set (nonwall_indices (game_map g)) \<and>
            (\<exists>t. arr_get (game_map g) (fst loc) (snd loc) = Inr t \<and> t \<noteq> WALL))"
proof -
  define nw where "nw = nonwall_indices gen"
  obtain objs locs k' where
    pa: "place_agents rnd nw (nw ! 0) (length ags) [] 0 = Some (locs, k')"
    and g: "g = \<lparr>height = h, width = w, agents = ags, game_map = gen,
                 objects = objs(nw ! 0 \<mapsto> Boss), goal_loc = nw ! 0,
                 agent_maps = replicate (length ags) (replicate (nat h) (replicate (nat w) U)),
                 agent_objects = replicate (length ags) Map.empty,
                 agent_locations = locs,
                 agent_strengths = replicate (length ags) initial,
                 initial_strength = initial\<rparr>"
    using assms(1) unfolding initialize_game_def nw_def[symmetric] Let_def
    by (auto split: if_splits sum.splits option.splits)
  have res: "distinct locs \<and> nw ! 0 \<notin> set locs \<and> set locs \<subseteq> set nw \<and>
             length locs = length ([] :: location list) + length ags"
  proof -
    have o: "\<forall>k. rnd k < length nw" using assms(2) by (simp add: nw_def)
    show ?thesis by (rule place_agents_result[OF o pa]) simp_all
  qed
  have cells: "\<forall>loc \<in> set locs. loc \<in> set (nonwall_indices gen) \<and>
                 (\<exists>t. arr_get gen (fst loc) (snd loc) = Inr t \<and> t \<noteq> WALL)"
    using res nonwall_indices_get unfolding nw_def by blast
  show ?thesis using res cells by (simp add: g)
qed

text \<open>The state \<^verbatim>\<open>initialize_game\<close> returns has the shapes \<open>consistent\<close> asks for.\<close>

lemma initialize_game_consistent:
  assumes "initialize_game h w num_powerups num_monsters ags initial
             gen object_indices deltas strengths rnd = Some (Inr g)"
    and "\<forall>k. rnd k < length (nonwall_indices gen)"
    and "shaped h w gen"
  shows "consistent g"
proof -
  define nw where "nw = nonwall_indices gen"
  obtain objs locs k' where
    pa: "place_agents rnd nw (nw ! 0) (length ags) [] 0 = Some (locs, k')"
    and hw: "0 \<le> h" "0 \<le> w"
    and g: "g = \<lparr>height = h, width = w, agents = ags, game_map = gen,
                 objects = objs(nw ! 0 \<mapsto> Boss), goal_loc = nw ! 0,
                 agent_maps = replicate (length ags) (replicate (nat h) (replicate (nat w) U)),
                 agent_objects = replicate (length ags) Map.empty,
                 agent_locations = locs,
                 agent_strengths = replicate (length ags) initial,
                 initial_strength = initial\<rparr>"
    using assms(1) unfolding initialize_game_def nw_def[symmetric] Let_def
    by (auto split: if_splits sum.splits option.splits)
  have "length locs = length ([] :: location list) + length ags"
  proof -
    have o: "\<forall>k. rnd k < length nw" using assms(2) by (simp add: nw_def)
    have "distinct locs \<and> nw ! 0 \<notin> set locs \<and> set locs \<subseteq> set nw \<and>
          length locs = length ([] :: location list) + length ags"
      by (rule place_agents_result[OF o pa]) simp_all
    then show ?thesis by simp
  qed
  then show ?thesis using assms(3) hw by (simp add: g consistent_def shaped_def)
qed

theorem agents_start_on_free_cells_witness:
  "initialize_game 2 3 1 0 [walker, northward] 10
     [[TerrainA, TerrainB, TerrainA], [TerrainA, TerrainA, WALL]] [2, 4] (\<lambda>cnt. 5) (\<lambda>cnt. 0) demo_rnd
     = Some (Inr (demo walker 10)) \<and>
   (\<forall>k. demo_rnd k < length (nonwall_indices
            [[TerrainA, TerrainB, TerrainA], [TerrainA, TerrainA, WALL]])) \<and>
   agent_locations (demo walker 10) = [(1, 0), (0, 2)] \<and>
   goal_loc (demo walker 10) = (0, 0) \<and>
   distinct (agent_locations (demo walker 10)) \<and>
   goal_loc (demo walker 10) \<notin> set (agent_locations (demo walker 10)) \<and>
   objects (demo walker 10) (goal_loc (demo walker 10)) = Some Boss"
proof -
  have h1: "initialize_game 2 3 1 0 [walker, northward] 10
     [[TerrainA, TerrainB, TerrainA], [TerrainA, TerrainA, WALL]] [2, 4] (\<lambda>cnt. 5) (\<lambda>cnt. 0) demo_rnd
     = Some (Inr (demo walker 10))"
    by (rule init_demo)
  have h2: "\<forall>k. demo_rnd k < length (nonwall_indices
            [[TerrainA, TerrainB, TerrainA], [TerrainA, TerrainA, WALL]])"
    by (simp add: nw_demo demo_rnd_def)
  have l: "agent_locations (demo walker 10) = [(1, 0), (0, 2)]"
    and gl: "goal_loc (demo walker 10) = (0, 0)"
    by (simp_all add: demo_def)
  show ?thesis
    using h1 h2 l gl agents_start_on_free_cells [OF h1 h2] by simp
qed

end
